theory Spec2Isabelle
  imports Main "HOL-Library.Multiset"
begin

section \<open>Errors\<close>

text \<open>
  Go errors as values. \<open>Errorf msg\<close> is an error built by \<^verbatim>\<open>fmt.Errorf\<close> with the
  formatted message \<open>msg\<close>; \<open>ErrFileNotFound\<close> is the sentinel \<^verbatim>\<open>git.ErrFileNotFound\<close>
  that \<^verbatim>\<open>getFeature\<close> compares against with \<^verbatim>\<open>==\<close>; \<open>LibError msg\<close> is any other
  error handed back by a library or by the operating system.
\<close>

datatype error = Errorf string | ErrFileNotFound | LibError string

section \<open>Feature data (package shared)\<close>

text \<open>\<^verbatim>\<open>yamlFeatureMeta\<close>: what \<^verbatim>\<open>meta.yml\<close> unmarshals to.\<close>

datatype yamlFeatureMeta =
  YamlFeatureMeta (yaml_Description: string) (yaml_Author: string) (yaml_Dependencies: "string list")

record FeatureMeta =
  Name :: string
  Description :: string
  Author :: string
  Dependencies :: "string list"
  UpdatedAt :: nat

record Feature =
  Meta :: FeatureMeta
  Snippet :: string
  TestSnippet :: string

text \<open>The zero values \<^verbatim>\<open>shared.FeatureMeta{}\<close> and \<^verbatim>\<open>shared.Feature{Meta: meta}\<close>.\<close>

definition Feature_of_Meta :: "FeatureMeta \<Rightarrow> Feature" where
  "Feature_of_Meta meta = \<lparr>Meta = meta, Snippet = [], TestSnippet = []\<rparr>"

section \<open>The git storage (package storageconnector)\<close>

text \<open>
  The git library is outside the repository, so a commit is given by what the code asks
  of it: \<^verbatim>\<open>commit.File(path)\<close>, \<^verbatim>\<open>file.Reader()\<close>, \<^verbatim>\<open>ioutil.ReadAll(reader)\<close> and
  \<^verbatim>\<open>commit.Committer.When\<close>. Each call that can fail returns a sum.
\<close>

datatype reader = IoReader (ReadAll: "error + string")

datatype gitfile = GitFile (Reader: "error + reader")

record commit =
  File :: "string \<Rightarrow> error + gitfile"
  When :: nat

text \<open>
  What the storage code takes from other packages: \<^verbatim>\<open>path.Join\<close>, \<^verbatim>\<open>yaml.Unmarshal\<close>
  into a \<^verbatim>\<open>yamlFeatureMeta\<close>, and \<^verbatim>\<open>shared.ReadTestSpec\<close>.
\<close>

record env =
  path_Join :: "string list \<Rightarrow> string"
  yaml_Unmarshal :: "string \<Rightarrow> error + yamlFeatureMeta"
  ReadTestSpec :: "reader \<Rightarrow> error + string"

definition featureDir :: string where "featureDir = ''features''"
definition featureFile :: string where "featureFile = ''meta.yml''"
definition featureSnippet :: string where "featureSnippet = ''Dockerfile''"
definition testSnippet :: string where "testSnippet = ''test.bats''"

definition getMeta :: "env \<Rightarrow> commit \<Rightarrow> string \<Rightarrow> error + FeatureMeta" where
  "getMeta E c name =
     (case File c (path_Join E [featureDir, name, featureFile]) of
        Inl err \<Rightarrow> Inl err
      | Inr file \<Rightarrow>
          (case Reader file of
             Inl err \<Rightarrow> Inl err
           | Inr rd \<Rightarrow>
               (case ReadAll rd of
                  Inl err \<Rightarrow> Inl err
                | Inr content \<Rightarrow>
                    (case yaml_Unmarshal E content of
                       Inl err \<Rightarrow> Inl err
                     | Inr meta \<Rightarrow>
                         Inr \<lparr>Name = name,
                              Description = yaml_Description meta,
                              Author = yaml_Author meta,
                              Dependencies = yaml_Dependencies meta,
                              UpdatedAt = When c\<rparr>))))"

text \<open>\<^verbatim>\<open>getTestSpec\<close> turns every failure into the empty string.\<close>

definition getTestSpec :: "env \<Rightarrow> commit \<Rightarrow> string \<Rightarrow> string" where
  "getTestSpec E c name =
     (case File c (path_Join E [featureDir, name, testSnippet]) of
        Inl err \<Rightarrow> []
      | Inr file \<Rightarrow>
          (case Reader file of
             Inl err \<Rightarrow> []
           | Inr rd \<Rightarrow>
               (case ReadTestSpec E rd of
                  Inl err \<Rightarrow> []
                | Inr content \<Rightarrow> content)))"

definition getFeature :: "env \<Rightarrow> commit \<Rightarrow> string \<Rightarrow> error + Feature" where
  "getFeature E c name =
     (case getMeta E c name of
        Inl err \<Rightarrow> Inl err
      | Inr meta \<Rightarrow>
          (case File c (path_Join E [featureDir, name, featureSnippet]) of
             Inl err \<Rightarrow> if err = ErrFileNotFound then Inr (Feature_of_Meta meta) else Inl err
           | Inr file \<Rightarrow>
               (case Reader file of
                  Inl err \<Rightarrow> Inl err
                | Inr rd \<Rightarrow>
                    (case ReadAll rd of
                       Inl err \<Rightarrow> Inl err
                     | Inr snippet \<Rightarrow>
                         Inr \<lparr>Meta = meta, Snippet = snippet,
                              TestSnippet = getTestSpec E c name\<rparr>))))"

subsection \<open>Resolution\<close>

text \<open>
  The state that \<^verbatim>\<open>resolve\<close> mutates through its arguments: the slice \<^verbatim>\<open>*list\<close> and the
  map \<^verbatim>\<open>result\<close>. The third component is a log of the names handed to \<^verbatim>\<open>getFeature\<close>,
  in call order: reading the store is the one effect of \<^verbatim>\<open>getFeature\<close>, and the log
  makes it countable. The code's control flow never reads the log.
\<close>

type_synonym rstate = "string list \<times> (string \<rightharpoonup> Feature) \<times> string list"

text \<open>
  \<^verbatim>\<open>resolve\<close> calls itself for every dependency and has no cycle guard, so it need not
  return. The first numeric argument bounds the depth of nested calls; \<open>None\<close> means the
  bound was reached. \<open>resolve_deps\<close> is the loop over \<^verbatim>\<open>feature.Meta.Dependencies\<close>.
\<close>

fun resolve :: "env \<Rightarrow> commit \<Rightarrow> nat \<Rightarrow> string \<Rightarrow> rstate \<Rightarrow> (error + rstate) option"
  and resolve_deps :: "env \<Rightarrow> commit \<Rightarrow> nat \<Rightarrow> string list \<Rightarrow> rstate \<Rightarrow> (error + rstate) option"
where
  "resolve E c 0 name st = None"
| "resolve E c (Suc k) name (lst, result, fetched) =
     (if result name \<noteq> None then Some (Inr (lst, result, fetched))
      else
        (case getFeature E c name of
           Inl err \<Rightarrow> Some (Inl err)
         | Inr feature \<Rightarrow>
             (case resolve_deps E c k (Dependencies (Meta feature))
                     (lst, result, fetched @ [name]) of
                None \<Rightarrow> None
              | Some (Inl err) \<Rightarrow> Some (Inl err)
              | Some (Inr (lst', result', fetched')) \<Rightarrow>
                  Some (Inr (lst' @ [name], result'(name \<mapsto> feature), fetched')))))"
| "resolve_deps E c k [] st = Some (Inr st)"
| "resolve_deps E c k (depName # rest) st =
     (case resolve E c k depName st of
        None \<Rightarrow> None
      | Some (Inl err) \<Rightarrow> Some (Inl err)
      | Some (Inr st') \<Rightarrow> resolve_deps E c k rest st')"

text \<open>\<^verbatim>\<open>latestCommit\<close>: the repository's HEAD and the commit it points to.\<close>

record repository =
  Head :: "error + string"
  Commit :: "string \<Rightarrow> error + commit"

record GitStorage =
  repo :: repository

definition latestCommit :: "GitStorage \<Rightarrow> error + commit" where
  "latestCommit storage =
     (case Head (repo storage) of
        Inl err \<Rightarrow> Inl err
      | Inr hash \<Rightarrow>
          (case Commit (repo storage) hash of
             Inl err \<Rightarrow> Inl err
           | Inr c \<Rightarrow> Inr c))"

text \<open>
  \<^verbatim>\<open>GitStorage.Resolve\<close>. On an error the Go function returns an empty slice and an empty
  map beside the error; that is the \<open>Inl\<close> branch here. \<open>Resolve_names\<close> is the loop
  over the requested names.
\<close>

fun Resolve_names :: "env \<Rightarrow> commit \<Rightarrow> nat \<Rightarrow> string list \<Rightarrow> rstate \<Rightarrow> (error + rstate) option" where
  "Resolve_names E c k [] st = Some (Inr st)"
| "Resolve_names E c k (name # names) st =
     (case resolve E c k name st of
        None \<Rightarrow> None
      | Some (Inl err) \<Rightarrow> Some (Inl err)
      | Some (Inr st') \<Rightarrow> Resolve_names E c k names st')"

definition Resolve :: "env \<Rightarrow> GitStorage \<Rightarrow> nat \<Rightarrow> string list \<Rightarrow> (error + rstate) option" where
  "Resolve E storage k names =
     (case latestCommit storage of
        Inl err \<Rightarrow> Some (Inl err)
      | Inr c \<Rightarrow> Resolve_names E c k names ([], Map.empty, []))"


section \<open>The Dockerfile writer (package pazuzu)\<close>

abbreviation NL :: string where "NL \<equiv> [CHR 0x0A]"

text \<open>
  \<^verbatim>\<open>bytes.Buffer.WriteString\<close> appends and hands back an error that is always nil; the
  callers test it all the same, and so does the model.
\<close>

definition WriteString :: "string \<Rightarrow> string \<Rightarrow> string \<times> error option" where
  "WriteString b s = (b @ s, None)"

text \<open>
  The Dockerfile parser is a library outside the repository. Its syntax tree is the type
  below, with the fields the writer reads: the lower-cased instruction or a token in
  \<open>Value\<close>, the following token in \<open>Next\<close>, the instructions of a file in \<open>Children\<close>
  and the source text of an instruction in \<open>Original\<close>. The parser itself is a parameter
  \<open>Parse\<close> of \<open>AppendFeature\<close>.
\<close>

datatype Node = Node (Value: string) (Next: "Node option") (Children: "Node list") (Original: string)

record DockerfileWriter =
  buf :: string

definition NewDockerfileWriter :: DockerfileWriter where
  "NewDockerfileWriter = \<lparr>buf = []\<rparr>"

definition ErrInvalidCopyCmdSyntax :: error where
  "ErrInvalidCopyCmdSyntax = Errorf ''Invalid 'COPY' command syntax''"

definition AppendRaw :: "DockerfileWriter \<Rightarrow> string \<Rightarrow> DockerfileWriter \<times> error option" where
  "AppendRaw c chunk =
     (case WriteString (buf c) (chunk @ NL) of
        (b, Some err) \<Rightarrow> (c\<lparr>buf := b\<rparr>, Some err)
      | (b, None) \<Rightarrow> (c\<lparr>buf := b\<rparr>, None))"

definition fixCopyCmd :: "Node \<Rightarrow> Feature \<Rightarrow> error + string" where
  "fixCopyCmd node feature =
     (case Next node of
        None \<Rightarrow> Inl ErrInvalidCopyCmdSyntax
      | Some srcNode \<Rightarrow>
          (case Next srcNode of
             None \<Rightarrow> Inl ErrInvalidCopyCmdSyntax
           | Some dstNode \<Rightarrow>
               Inr (''COPY '' @ Name (Meta feature) @ ''/'' @ Value srcNode @ '' '' @ Value dstNode)))"

text \<open>
  The loop of \<^verbatim>\<open>AppendFeature\<close> over \<^verbatim>\<open>ast.Children\<close>. The writer is changed in place, so
  what was appended before an error stays in the buffer; the result of \<^verbatim>\<open>AppendRaw\<close> is
  not looked at.
\<close>

fun AppendFeature_loop :: "DockerfileWriter \<Rightarrow> Feature \<Rightarrow> Node list \<Rightarrow> DockerfileWriter \<times> error option" where
  "AppendFeature_loop c feature [] = (c, None)"
| "AppendFeature_loop c feature (cmdNode # rest) =
     (if Value cmdNode = ''copy'' then
        (case fixCopyCmd cmdNode feature of
           Inl err \<Rightarrow> (c, Some err)
         | Inr fixedCmd \<Rightarrow> AppendFeature_loop (fst (AppendRaw c fixedCmd)) feature rest)
      else AppendFeature_loop (fst (AppendRaw c (Original cmdNode))) feature rest)"

definition AppendFeature :: "(string \<Rightarrow> error + Node) \<Rightarrow> DockerfileWriter \<Rightarrow> Feature \<Rightarrow> DockerfileWriter \<times> error option" where
  "AppendFeature Parse c feature =
     (case Parse (Snippet feature) of
        Inl err \<Rightarrow> (c, Some err)
      | Inr ast \<Rightarrow> AppendFeature_loop c feature (Children ast))"

subsection \<open>Composition of the document\<close>

text \<open>
  Modelled from the spec: \<^verbatim>\<open>Generate(baseimage, features)\<close> of package \<^verbatim>\<open>pazuzu\<close>, the
  function that composes the document with the writer above, is not among the sources
  (its test and the writer it uses are). The specification's
  \<^verbatim>\<open>Compose(baseImage, orderedFeatures)\<close> emits a header line selecting the base image,
  then for each feature in order a comment naming it and its snippet through
  \<^verbatim>\<open>AppendFeature\<close>, then a trailing command launching an interactive shell, and the
  first error aborts the composition. The literal forms of the three lines,
  \<^verbatim>\<open>FROM\<close>, \<^verbatim>\<open>#\<close> and \<^verbatim>\<open>CMD /bin/bash\<close>, are those of \<^verbatim>\<open>generateDockerfile\<close> in package
  \<^verbatim>\<open>main\<close>.
\<close>

fun Compose_loop :: "(string \<Rightarrow> error + Node) \<Rightarrow> DockerfileWriter \<Rightarrow> Feature list \<Rightarrow> DockerfileWriter \<times> error option" where
  "Compose_loop Parse w [] = (w, None)"
| "Compose_loop Parse w (feature # features) =
     (case AppendFeature Parse (fst (AppendRaw w (''# '' @ Name (Meta feature)))) feature of
        (w', Some err) \<Rightarrow> (w', Some err)
      | (w', None) \<Rightarrow> Compose_loop Parse w' features)"

definition Compose :: "(string \<Rightarrow> error + Node) \<Rightarrow> string \<Rightarrow> Feature list \<Rightarrow> error + string" where
  "Compose Parse baseImage orderedFeatures =
     (case Compose_loop Parse (fst (AppendRaw NewDockerfileWriter (''FROM '' @ baseImage)))
             orderedFeatures of
        (w, Some err) \<Rightarrow> Inl err
      | (w, None) \<Rightarrow> Inr (buf (fst (AppendRaw w ''CMD /bin/bash''))))"

section \<open>The command-line tool (package main)\<close>

text \<open>
  \<^verbatim>\<open>main.Feature\<close>, a feature as the registry serves it. Its \<^verbatim>\<open>Name\<close> field is
  \<open>main_Name\<close> here, \<open>Name\<close> being the field of \<open>FeatureMeta\<close>.
\<close>

record main_Feature =
  main_Name :: string
  DockerData :: string
  TestInstruction :: string

text \<open>\<^verbatim>\<open>Pazuzu\<close> without its pointer to the Docker client, which is the runtime below.\<close>

record Pazuzu =
  registry :: string
  dockerfile :: string
  testSpec :: string
  dockerEndpoint :: string

record TestSpec =
  Feature :: string
  Cmd :: string

fun generateDockerfile_loop :: "string \<Rightarrow> main_Feature list \<Rightarrow> error + string" where
  "generateDockerfile_loop b [] = Inr b"
| "generateDockerfile_loop b (feature # features) =
     (case WriteString b (''# '' @ main_Name feature @ NL) of
        (b1, Some err) \<Rightarrow> Inl err
      | (b1, None) \<Rightarrow>
          (case WriteString b1 (DockerData feature @ NL) of
             (b2, Some err) \<Rightarrow> Inl err
           | (b2, None) \<Rightarrow> generateDockerfile_loop b2 features))"

definition generateDockerfile :: "Pazuzu \<Rightarrow> main_Feature list \<Rightarrow> error option \<times> Pazuzu" where
  "generateDockerfile p features =
     (case WriteString [] (''FROM ubuntu:latest'' @ NL) of
        (b0, Some err) \<Rightarrow> (Some err, p)
      | (b0, None) \<Rightarrow>
          (case generateDockerfile_loop b0 features of
             Inl err \<Rightarrow> (Some err, p)
           | Inr b1 \<Rightarrow>
               (case WriteString b1 (''CMD /bin/bash'' @ NL) of
                  (b2, Some err) \<Rightarrow> (Some err, p)
                | (b2, None) \<Rightarrow> (None, p\<lparr>dockerfile := b2\<rparr>))))"

subsection \<open>The test plan and its file\<close>










subsection \<open>The JSON codec\<close>

text \<open>
  \<^verbatim>\<open>encoding/json\<close> is a library, and the round trip of the plan file is its work, so
  it is written out here for the one type the tool encodes, after the library's
  documentation and source. A string is a list of bytes, as in Go.

  \<open>utf8_len\<close> is the size of the UTF-8 sequence at the head of a string, as
  \<^verbatim>\<open>utf8.DecodeRune\<close> accepts it (no overlong form, no surrogate, nothing above
  \<^verbatim>\<open>U+10FFFF\<close>), and 0 where the head is not valid. \<open>utf8_encode\<close> is
  \<^verbatim>\<open>utf8.EncodeRune\<close>.
\<close>

abbreviation DQ :: char where "DQ \<equiv> CHR 0x22"
abbreviation BSL :: char where "BSL \<equiv> CHR 0x5C"

definition cont :: "char \<Rightarrow> bool" where
  "cont c \<longleftrightarrow> (0x80::nat) \<le> of_char c \<and> (of_char c :: nat) \<le> 0xBF"

definition second_ok :: "nat \<Rightarrow> char \<Rightarrow> bool" where
  "second_ok b c \<longleftrightarrow>
     (if b = 0xE0 then 0xA0 else if b = 0xF0 then 0x90 else (0x80::nat)) \<le> of_char c \<and>
     (of_char c :: nat) \<le> (if b = 0xED then 0x9F else if b = 0xF4 then 0x8F else 0xBF)"

fun utf8_len :: "string \<Rightarrow> nat" where
  "utf8_len [] = 0"
| "utf8_len (c # cs) =
     (let b = (of_char c :: nat) in
      if b < 0x80 then 1
      else if 0xC2 \<le> b \<and> b \<le> 0xDF then
        (case cs of c1 # r \<Rightarrow> if cont c1 then 2 else 0 | _ \<Rightarrow> 0)
      else if 0xE0 \<le> b \<and> b \<le> 0xEF then
        (case cs of c1 # c2 # r \<Rightarrow> if second_ok b c1 \<and> cont c2 then 3 else 0 | _ \<Rightarrow> 0)
      else if 0xF0 \<le> b \<and> b \<le> 0xF4 then
        (case cs of c1 # c2 # c3 # r \<Rightarrow>
           if second_ok b c1 \<and> cont c2 \<and> cont c3 then 4 else 0 | _ \<Rightarrow> 0)
      else 0)"

definition utf8_encode :: "nat \<Rightarrow> string" where
  "utf8_encode r =
     (if r < 0x80 then [char_of r]
      else if r < 0x800 then [char_of (0xC0 + r div 64), char_of (0x80 + r mod 64)]
      else if (0xD800 \<le> r \<and> r < 0xE000) \<or> 0x10FFFF < r then [CHR 0xEF, CHR 0xBF, CHR 0xBD]
      else if r < 0x10000 then
        [char_of (0xE0 + r div 4096), char_of (0x80 + (r div 64) mod 64), char_of (0x80 + r mod 64)]
      else
        [char_of (0xF0 + r div 262144), char_of (0x80 + (r div 4096) mod 64),
         char_of (0x80 + (r div 64) mod 64), char_of (0x80 + r mod 64)])"


definition hexval :: "char \<Rightarrow> nat option" where
  "hexval c =
     (let b = (of_char c :: nat) in
      if 0x30 \<le> b \<and> b \<le> 0x39 then Some (b - 0x30)
      else if 0x61 \<le> b \<and> b \<le> 0x66 then Some (b - 0x61 + 10)
      else if 0x41 \<le> b \<and> b \<le> 0x46 then Some (b - 0x41 + 10)
      else None)"

definition getu4 :: "string \<Rightarrow> nat option" where
  "getu4 s =
     (case s of
        e # u # a # b # c # d # r \<Rightarrow>
          if e = BSL \<and> u = CHR ''u'' then
            (case (hexval a, hexval b, hexval c, hexval d) of
               (Some x3, Some x2, Some x1, Some x0) \<Rightarrow> Some (((x3 * 16 + x2) * 16 + x1) * 16 + x0)
             | _ \<Rightarrow> None)
          else None
      | _ \<Rightarrow> None)"



text \<open>
  \<open>unquote\<close> reads the body of a JSON string up to its closing quote and returns the
  decoded bytes and the input after the quote: the escapes of the JSON grammar, a pair
  of surrogate escapes joined, a lone surrogate and a byte that is not valid UTF-8
  replaced by \<^verbatim>\<open>U+FFFD\<close>.
\<close>

definition emit :: "string \<Rightarrow> error + string \<times> string \<Rightarrow> error + string \<times> string" where
  "emit bytes r = (case r of Inl err \<Rightarrow> Inl err | Inr (s, rest) \<Rightarrow> Inr (bytes @ s, rest))"

definition syntax_error :: error where
  "syntax_error = LibError ''invalid character''"

fun unquote :: "string \<Rightarrow> error + string \<times> string" where
  "unquote [] = Inl (LibError ''unexpected end of JSON input'')"
| "unquote (c # cs) =
     (if c = DQ then Inr ([], cs)
      else if c = BSL then
        (case cs of
           [] \<Rightarrow> Inl (LibError ''unexpected end of JSON input'')
         | e # r \<Rightarrow>
             if e = DQ \<or> e = BSL \<or> e = CHR ''/'' then emit [e] (unquote r)
             else if e = CHR ''b'' then emit [CHR 0x08] (unquote r)
             else if e = CHR ''f'' then emit [CHR 0x0C] (unquote r)
             else if e = CHR ''n'' then emit [CHR 0x0A] (unquote r)
             else if e = CHR ''r'' then emit [CHR 0x0D] (unquote r)
             else if e = CHR ''t'' then emit [CHR 0x09] (unquote r)
             else if e = CHR ''u'' then
               (case getu4 (c # cs) of
                  None \<Rightarrow> Inl syntax_error
                | Some rr \<Rightarrow>
                    if 0xD800 \<le> rr \<and> rr < 0xE000 then
                      (case getu4 (drop 5 cs) of
                         None \<Rightarrow> emit [CHR 0xEF, CHR 0xBF, CHR 0xBD] (unquote (drop 5 cs))
                       | Some rr1 \<Rightarrow>
                           if rr < 0xDC00 \<and> 0xDC00 \<le> rr1 \<and> rr1 < 0xE000 then
                             emit (utf8_encode ((rr - 0xD800) * 1024 + (rr1 - 0xDC00) + 0x10000))
                               (unquote (drop 11 cs))
                           else emit [CHR 0xEF, CHR 0xBF, CHR 0xBD] (unquote (drop 5 cs)))
                    else emit (utf8_encode rr) (unquote (drop 5 cs)))
             else Inl syntax_error)
      else if (of_char c :: nat) < 0x20 then Inl syntax_error
      else if (of_char c :: nat) < 0x80 then emit [c] (unquote cs)
      else if utf8_len (c # cs) = 0 then emit [CHR 0xEF, CHR 0xBF, CHR 0xBD] (unquote cs)
      else emit (take (utf8_len (c # cs)) (c # cs)) (unquote (drop (utf8_len (c # cs) - 1) cs)))"


declare utf8_len.simps [simp del]
declare unquote.simps [simp del]













subsection \<open>The container runtime\<close>














section \<open>Notions used in the properties\<close>

subsection \<open>Resolution\<close>

text \<open>
  \<open>earlier lst d n\<close>: \<open>n\<close> occurs in \<open>lst\<close> and \<open>d\<close> occurs before the first occurrence
  of \<open>n\<close>. \<open>dependency_of result d n\<close>: the feature stored under \<open>n\<close> lists \<open>d\<close> among its
  dependencies.
\<close>

definition earlier :: "string list \<Rightarrow> string \<Rightarrow> string \<Rightarrow> bool" where
  "earlier lst d n \<longleftrightarrow> d \<in> set (takeWhile (\<lambda>x. x \<noteq> n) lst) \<and> n \<in> set lst"

definition dependency_of :: "(string \<rightharpoonup> Feature) \<Rightarrow> string \<Rightarrow> string \<Rightarrow> bool" where
  "dependency_of result d n =
     (case result n of None \<Rightarrow> False | Some f \<Rightarrow> d \<in> set (Dependencies (Meta f)))"

text \<open>
  \<open>store_dependency E c d n\<close>: the feature that the store holds under \<open>n\<close> lists \<open>d\<close> among
  its dependencies.
\<close>

definition store_dependency :: "env \<Rightarrow> commit \<Rightarrow> string \<Rightarrow> string \<Rightarrow> bool" where
  "store_dependency E c d n =
     (case getFeature E c n of Inl err \<Rightarrow> False | Inr f \<Rightarrow> d \<in> set (Dependencies (Meta f)))"

text \<open>
  Used in the proofs only. \<open>awaits E c A n\<close>: every name of \<open>A\<close> is in the store and has
  a dependency in \<open>A\<close> or equal to \<open>n\<close>; these are the names whose calls are open while
  \<open>n\<close> is resolved. \<open>resolved_inv\<close> is what every state of a run satisfies, \<open>P\<close> being
  the names fetched and not yet appended.
\<close>

definition awaits :: "env \<Rightarrow> commit \<Rightarrow> string set \<Rightarrow> string \<Rightarrow> bool" where
  "awaits E c A n \<longleftrightarrow>
     (\<forall>a\<in>A. \<exists>f. getFeature E c a = Inr f \<and> set (Dependencies (Meta f)) \<inter> insert n A \<noteq> {})"

definition resolved_inv :: "env \<Rightarrow> commit \<Rightarrow> string multiset \<Rightarrow> rstate \<Rightarrow> bool" where
  "resolved_inv E c P st \<longleftrightarrow>
     (case st of (lst, result, fetched) \<Rightarrow>
        distinct lst \<and> set lst = dom result \<and> mset fetched = mset lst + P \<and>
        (\<forall>n f. result n = Some f \<longrightarrow>
           getFeature E c n = Inr f \<and> (\<forall>d\<in>set (Dependencies (Meta f)). earlier lst d n)))"

subsection \<open>Composition\<close>

text \<open>
  \<open>args n\<close>: the tokens that follow the instruction \<open>n\<close>. \<open>rewritten X n\<close>: the line
  expected for \<open>n\<close> in a feature named \<open>X\<close>, a copy instruction with its first token
  under \<open>X/\<close> and its second token kept, any other instruction as it was written.
  \<open>mentions msg name\<close>: the text \<open>msg\<close> contains \<open>name\<close>.
\<close>

fun chain :: "Node \<Rightarrow> string list" where
  "chain (Node v nx ch orig) = v # (case nx of None \<Rightarrow> [] | Some m \<Rightarrow> chain m)"

definition args :: "Node \<Rightarrow> string list" where
  "args n = tl (chain n)"

definition rewritten :: "string \<Rightarrow> Node \<Rightarrow> string" where
  "rewritten X n =
     (if Value n = ''copy'' then ''COPY '' @ X @ ''/'' @ hd (args n) @ '' '' @ hd (tl (args n))
      else Original n)"

fun mentions :: "string \<Rightarrow> string \<Rightarrow> bool" where
  "mentions [] name = (name = [])"
| "mentions (x # xs) name = (take (length name) (x # xs) = name \<or> mentions xs name)"

text \<open>
  \<open>instructions Parse f\<close>: the instructions the parser finds in the snippet of \<open>f\<close>;
  \<open>parses\<close>: the parser accepts the snippet; \<open>no_copy\<close>: none of its instructions is
  a copy instruction; \<open>snippet_lines\<close>: the texts of its instructions, one per line.
  \<open>composed baseImage blocks\<close>: the header line for \<open>baseImage\<close>, for each block a
  comment line with its name and then its content, and the trailing command line.
\<close>

definition instructions :: "(string \<Rightarrow> error + Node) \<Rightarrow> Feature \<Rightarrow> Node list" where
  "instructions Parse feature =
     (case Parse (Snippet feature) of Inl err \<Rightarrow> [] | Inr ast \<Rightarrow> Children ast)"

definition parses :: "(string \<Rightarrow> error + Node) \<Rightarrow> Feature \<Rightarrow> bool" where
  "parses Parse feature = (case Parse (Snippet feature) of Inl err \<Rightarrow> False | Inr ast \<Rightarrow> True)"

definition no_copy :: "(string \<Rightarrow> error + Node) \<Rightarrow> Feature \<Rightarrow> bool" where
  "no_copy Parse feature = list_all (\<lambda>n. Value n \<noteq> ''copy'') (instructions Parse feature)"

definition snippet_lines :: "(string \<Rightarrow> error + Node) \<Rightarrow> Feature \<Rightarrow> string" where
  "snippet_lines Parse feature = concat (map (\<lambda>n. Original n @ NL) (instructions Parse feature))"

definition composed :: "string \<Rightarrow> (string \<times> string) list \<Rightarrow> string" where
  "composed baseImage blocks =
     ''FROM '' @ baseImage @ NL @
     concat (map (\<lambda>(name, content). ''# '' @ name @ NL @ content) blocks) @
     ''CMD /bin/bash'' @ NL"

text \<open>\<open>feature_block\<close>: the comment line and the snippet of one registry feature.\<close>

definition feature_block :: "main_Feature \<Rightarrow> string" where
  "feature_block f = ''# '' @ main_Name f @ NL @ DockerData f @ NL"

subsection \<open>Test plan and test run\<close>













section \<open>Example data\<close>

text \<open>
  A store with the features \<open>A\<close> and \<open>C\<close>, both depending on \<open>B\<close>, and no feature
  \<open>FooBoo\<close>; \<open>A\<close> and \<open>B\<close> are the features of the specification's scenario.
\<close>

definition example_env :: env where
  "example_env =
     \<lparr>path_Join = (\<lambda>parts. case parts of [a, b, c] \<Rightarrow> a @ ''/'' @ b @ ''/'' @ c | _ \<Rightarrow> concat parts),
      yaml_Unmarshal = (\<lambda>s. if s = ''dependencies: [B]'' then Inr (YamlFeatureMeta [] [] [''B''])
                            else Inr (YamlFeatureMeta [] [] [])),
      ReadTestSpec = ReadAll\<rparr>"

definition example_file :: "string \<Rightarrow> error + gitfile" where
  "example_file content = Inr (GitFile (Inr (IoReader (Inr content))))"

definition example_commit :: commit where
  "example_commit =
     \<lparr>File = (\<lambda>p.
        if p = ''features/A/meta.yml'' then example_file ''dependencies: [B]''
        else if p = ''features/A/Dockerfile'' then example_file ''RUN a''
        else if p = ''features/B/meta.yml'' then example_file ''''
        else if p = ''features/B/Dockerfile'' then example_file ''COPY f.txt /f.txt''
        else if p = ''features/C/meta.yml'' then example_file ''dependencies: [B]''
        else Inl ErrFileNotFound),
      When = 0\<rparr>"

definition example_storage :: GitStorage where
  "example_storage = \<lparr>repo = \<lparr>Head = Inr ''HEAD'', Commit = (\<lambda>hash. Inr example_commit)\<rparr>\<rparr>"

definition example_A :: Feature where
  "example_A = \<lparr>Meta = \<lparr>Name = ''A'', Description = [], Author = [], Dependencies = [''B''],
       UpdatedAt = 0\<rparr>, Snippet = ''RUN a'', TestSnippet = []\<rparr>"

definition example_B :: Feature where
  "example_B = \<lparr>Meta = \<lparr>Name = ''B'', Description = [], Author = [], Dependencies = [],
       UpdatedAt = 0\<rparr>, Snippet = ''COPY f.txt /f.txt'', TestSnippet = []\<rparr>"

definition example_C :: Feature where
  "example_C = \<lparr>Meta = \<lparr>Name = ''C'', Description = [], Author = [], Dependencies = [''B''],
       UpdatedAt = 0\<rparr>, Snippet = [], TestSnippet = []\<rparr>"

text \<open>Four snippets and the syntax trees a parser gives for them.\<close>

definition token :: "string \<Rightarrow> Node option \<Rightarrow> Node" where
  "token v nx = Node v nx [] []"

definition copy_foo_bar :: Node where
  "copy_foo_bar = Node ''copy'' (Some (token ''foo'' (Some (token ''bar'' None)))) [] ''COPY foo bar''"

definition copy_foo :: Node where
  "copy_foo = Node ''copy'' (Some (token ''foo'' None)) [] ''COPY foo''"

definition copy_a_b_c :: Node where
  "copy_a_b_c =
     Node ''copy'' (Some (token ''a'' (Some (token ''b'' (Some (token ''c'' None)))))) []
       ''COPY a b c''"

definition run_make :: Node where
  "run_make = Node ''run'' (Some (token ''make'' None)) [] ''RUN make''"

definition example_Parse :: "string \<Rightarrow> error + Node" where
  "example_Parse s =
     (if s = ''COPY foo bar'' @ NL @ ''RUN make'' then Inr (Node [] None [copy_foo_bar, run_make] [])
      else if s = ''RUN make'' @ NL @ ''COPY foo'' then Inr (Node [] None [run_make, copy_foo] [])
      else if s = ''COPY a b c'' then Inr (Node [] None [copy_a_b_c] [])
      else if s = ''RUN make'' then Inr (Node [] None [run_make] [])
      else Inl (LibError ''parse error''))"

definition example_feature :: "string \<Rightarrow> string \<Rightarrow> Feature" where
  "example_feature name snippet =
     \<lparr>Meta = \<lparr>Name = name, Description = [], Author = [], Dependencies = [], UpdatedAt = 0\<rparr>,
      Snippet = snippet, TestSnippet = []\<rparr>"











section \<open>Resolution: every successful run keeps the order\<close>

text \<open>The loop over the requested names is the loop over dependencies.\<close>

lemma Resolve_names_eq: "Resolve_names E c k names st = resolve_deps E c k names st"
  by (induction names arbitrary: st) (auto split: option.splits sum.splits)

text \<open>
  A run that returns with some depth bound returns the same with every larger one: the
  bound decides only whether the model sees the result.
\<close>

lemma resolve_fuel_mono:
  "(\<forall>k' r. resolve E c k name st = Some r \<longrightarrow> k \<le> k' \<longrightarrow> resolve E c k' name st = Some r)"
  "(\<forall>k' r. resolve_deps E c k ds st = Some r \<longrightarrow> k \<le> k' \<longrightarrow> resolve_deps E c k' ds st = Some r)"
proof (induction E c k name st and E c k ds st rule: resolve_resolve_deps.induct)
  case (1 E c name st)
  then show ?case by simp
next
  case (2 E c k name lst result fetched)
  show ?case
  proof (intro allI impI)
    fix k' r
    assume run: "resolve E c (Suc k) name (lst, result, fetched) = Some r" and le: "Suc k \<le> k'"
    then obtain j where k': "k' = Suc j" and kj: "k \<le> j" by (cases k') auto
    show "resolve E c k' name (lst, result, fetched) = Some r"
    proof (cases "result name \<noteq> None")
      case True
      with run show ?thesis unfolding k' by simp
    next
      case False
      show ?thesis
      proof (cases "getFeature E c name")
        case (Inl err)
        with run False show ?thesis unfolding k' by simp
      next
        case (Inr feature)
        from run False Inr obtain q where
          q: "resolve_deps E c k (Dependencies (Meta feature)) (lst, result, fetched @ [name]) = Some q"
          by (auto split: option.splits)
        from 2[OF False Inr] q kj
        have "resolve_deps E c j (Dependencies (Meta feature)) (lst, result, fetched @ [name]) = Some q"
          by blast
        with run False Inr q show ?thesis unfolding k' by simp
      qed
    qed
  qed
next
  case (3 E c k st)
  then show ?case by simp
next
  case (4 E c k depName rest st)
  show ?case
  proof (intro allI impI)
    fix k' r
    assume run: "resolve_deps E c k (depName # rest) st = Some r" and le: "k \<le> k'"
    from run obtain q where q: "resolve E c k depName st = Some q"
      by (auto split: option.splits)
    with 4(1) le have q': "resolve E c k' depName st = Some q" by blast
    show "resolve_deps E c k' (depName # rest) st = Some r"
    proof (cases q)
      case (Inl err)
      with run q q' show ?thesis by auto
    next
      case (Inr st')
      with run q have "resolve_deps E c k rest st' = Some r" by simp
      with 4(2)[OF q Inr] le have "resolve_deps E c k' rest st' = Some r" by blast
      with q' Inr show ?thesis by simp
    qed
  qed
qed

text \<open>A successful call adds its name and forgets nothing.\<close>

lemma resolve_grows:
  "(\<forall>l' r' t'. resolve E c k name st = Some (Inr (l', r', t')) \<longrightarrow>
      name \<in> dom r' \<and> dom (fst (snd st)) \<subseteq> dom r')"
  "(\<forall>l' r' t'. resolve_deps E c k ds st = Some (Inr (l', r', t')) \<longrightarrow>
      set ds \<subseteq> dom r' \<and> dom (fst (snd st)) \<subseteq> dom r')"
proof (induction E c k name st and E c k ds st rule: resolve_resolve_deps.induct)
  case (1 E c name st)
  then show ?case by simp
next
  case (2 E c k name lst result fetched)
  show ?case
  proof (intro allI impI)
    fix l' r' t'
    assume run: "resolve E c (Suc k) name (lst, result, fetched) = Some (Inr (l', r', t'))"
    show "name \<in> dom r' \<and> dom (fst (snd (lst, result, fetched))) \<subseteq> dom r'"
    proof (cases "result name \<noteq> None")
      case True
      with run show ?thesis by auto
    next
      case False
      from run False obtain feature l2 r2 t2 where
        f: "getFeature E c name = Inr feature" and
        d: "resolve_deps E c k (Dependencies (Meta feature)) (lst, result, fetched @ [name])
              = Some (Inr (l2, r2, t2))" and
        r': "r' = r2(name \<mapsto> feature)"
        by (auto split: sum.splits option.splits)
      from 2[OF False f] d have "dom result \<subseteq> dom r2" by fastforce
      with r' show ?thesis by auto
    qed
  qed
next
  case (3 E c k st)
  then show ?case by auto
next
  case (4 E c k depName rest st)
  show ?case
  proof (intro allI impI)
    fix l' r' t'
    assume run: "resolve_deps E c k (depName # rest) st = Some (Inr (l', r', t'))"
    then obtain l1 r1 t1 where
      a: "resolve E c k depName st = Some (Inr (l1, r1, t1))" and
      b: "resolve_deps E c k rest (l1, r1, t1) = Some (Inr (l', r', t'))"
      by (auto split: sum.splits option.splits)
    from 4(1) a have 1: "depName \<in> dom r1 \<and> dom (fst (snd st)) \<subseteq> dom r1" by blast
    from 4(2)[OF a refl] b have 2: "set rest \<subseteq> dom r' \<and> dom r1 \<subseteq> dom r'" by fastforce
    from 1 2 show "set (depName # rest) \<subseteq> dom r' \<and> dom (fst (snd st)) \<subseteq> dom r'"
      by (simp add: subset_iff)
  qed
qed


text \<open>
  No successful call stores a name whose own call is still open: such a name has a
  dependency that is open too, or is the name being resolved, and resolving a name
  that is open would have to store it.
\<close>

lemma awaits_insert:
  assumes "awaits E c A n" and "getFeature E c n = Inr f" and "d \<in> set (Dependencies (Meta f))"
  shows "awaits E c (insert n A) d"
  unfolding awaits_def
proof
  fix a assume "a \<in> insert n A"
  then show "\<exists>f. getFeature E c a = Inr f \<and> set (Dependencies (Meta f)) \<inter> insert d (insert n A) \<noteq> {}"
  proof
    assume "a = n"
    with assms(2,3) show ?thesis by auto
  next
    assume "a \<in> A"
    with assms(1) obtain g where "getFeature E c a = Inr g"
      "set (Dependencies (Meta g)) \<inter> insert n A \<noteq> {}"
      unfolding awaits_def by blast
    then show ?thesis by auto
  qed
qed

lemma resolve_pending:
  "(\<forall>A l' r' t'. resolve E c k name st = Some (Inr (l', r', t')) \<longrightarrow>
      awaits E c A name \<longrightarrow> dom (fst (snd st)) \<inter> A = {} \<longrightarrow> dom r' \<inter> A = {})"
  "(\<forall>A l' r' t'. resolve_deps E c k ds st = Some (Inr (l', r', t')) \<longrightarrow>
      (\<forall>d\<in>set ds. awaits E c A d) \<longrightarrow> dom (fst (snd st)) \<inter> A = {} \<longrightarrow> dom r' \<inter> A = {})"
proof (induction E c k name st and E c k ds st rule: resolve_resolve_deps.induct)
  case (1 E c name st)
  then show ?case by simp
next
  case (2 E c k name lst result fetched)
  show ?case
  proof (intro allI impI)
    fix A l' r' t'
    assume run: "resolve E c (Suc k) name (lst, result, fetched) = Some (Inr (l', r', t'))"
      and aw: "awaits E c A name"
      and dis: "dom (fst (snd (lst, result, fetched))) \<inter> A = {}"
    show "dom r' \<inter> A = {}"
    proof (cases "result name \<noteq> None")
      case True
      with run dis show ?thesis by auto
    next
      case False
      from run False obtain feature l2 r2 t2 where
        f: "getFeature E c name = Inr feature" and
        d: "resolve_deps E c k (Dependencies (Meta feature)) (lst, result, fetched @ [name])
              = Some (Inr (l2, r2, t2))" and
        r': "r' = r2(name \<mapsto> feature)"
        by (auto split: sum.splits option.splits)
      have aw': "\<forall>d\<in>set (Dependencies (Meta feature)). awaits E c (insert name A) d"
        using awaits_insert[OF aw f] by blast
      from dis False have dis': "dom (fst (snd (lst, result, fetched @ [name]))) \<inter> insert name A = {}"
        by auto
      from 2[OF False f] d aw' dis' have r2: "dom r2 \<inter> insert name A = {}" by blast
      have "name \<notin> A"
      proof
        assume nA: "name \<in> A"
        with aw f obtain x where x: "x \<in> set (Dependencies (Meta feature))" "x \<in> insert name A"
          unfolding awaits_def by fastforce
        from resolve_grows(2)[of E c k "Dependencies (Meta feature)" "(lst, result, fetched @ [name])"] d
        have "set (Dependencies (Meta feature)) \<subseteq> dom r2" by blast
        with x r2 show False by blast
      qed
      with r2 r' show ?thesis by auto
    qed
  qed
next
  case (3 E c k st)
  then show ?case by auto
next
  case (4 E c k depName rest st)
  show ?case
  proof (intro allI impI)
    fix A l' r' t'
    assume run: "resolve_deps E c k (depName # rest) st = Some (Inr (l', r', t'))"
      and aw: "\<forall>d\<in>set (depName # rest). awaits E c A d"
      and dis: "dom (fst (snd st)) \<inter> A = {}"
    from run obtain l1 r1 t1 where
      a: "resolve E c k depName st = Some (Inr (l1, r1, t1))" and
      b: "resolve_deps E c k rest (l1, r1, t1) = Some (Inr (l', r', t'))"
      by (auto split: sum.splits option.splits)
    from aw have aw1: "awaits E c A depName" and aw2: "\<forall>d\<in>set rest. awaits E c A d" by auto
    from 4(1) a aw1 dis have 1: "dom r1 \<inter> A = {}" by blast
    then have "dom (fst (snd (l1, r1, t1))) \<inter> A = {}" by simp
    with 4(2)[OF a refl] b aw2 show "dom r' \<inter> A = {}" by blast
  qed
qed

lemma resolve_deps_not_self:
  assumes "getFeature E c name = Inr feature" and "result name = None"
    and "resolve_deps E c k (Dependencies (Meta feature)) (lst, result, fetched) = Some (Inr (l', r', t'))"
  shows "r' name = None"
proof -
  have "\<forall>d\<in>set (Dependencies (Meta feature)). awaits E c {name} d"
    using assms(1) by (auto simp: awaits_def)
  moreover have "dom (fst (snd (lst, result, fetched))) \<inter> {name} = {}"
    using assms(2) by auto
  ultimately have "dom r' \<inter> {name} = {}"
    using resolve_pending(2)[of E c k "Dependencies (Meta feature)" "(lst, result, fetched)"] assms(3)
    by blast
  then show ?thesis by auto
qed


text \<open>The invariant of a run.\<close>

lemma earlier_append_old: "earlier lst d n \<Longrightarrow> earlier (lst @ [m]) d n"
  by (auto simp: earlier_def takeWhile_append1)

lemma earlier_append_new:
  assumes "m \<notin> set lst" and "d \<in> set lst"
  shows "earlier (lst @ [m]) d m"
proof -
  have "takeWhile (\<lambda>x. x \<noteq> m) (lst @ [m]) = lst @ takeWhile (\<lambda>x. x \<noteq> m) [m]"
    using assms(1) by (intro takeWhile_append2) auto
  with assms(2) show ?thesis by (simp add: earlier_def)
qed

lemma resolved_inv_fetch:
  "resolved_inv E c P (lst, result, fetched) \<Longrightarrow>
   resolved_inv E c (P + {#name#}) (lst, result, fetched @ [name])"
  by (simp add: resolved_inv_def)

lemma resolved_inv_append:
  assumes inv: "resolved_inv E c (P + {#name#}) (l2, r2, t2)"
    and f: "getFeature E c name = Inr feature"
    and new: "r2 name = None"
    and deps: "set (Dependencies (Meta feature)) \<subseteq> dom r2"
  shows "resolved_inv E c P (l2 @ [name], r2(name \<mapsto> feature), t2)"
proof -
  from inv have dist: "distinct l2" and dom: "set l2 = dom r2"
    and tr: "mset t2 = mset l2 + (P + {#name#})"
    and old: "\<And>n g. r2 n = Some g \<Longrightarrow>
        getFeature E c n = Inr g \<and> (\<forall>d\<in>set (Dependencies (Meta g)). earlier l2 d n)"
    by (auto simp: resolved_inv_def)
  from new dom have notin: "name \<notin> set l2" by auto
  have 1: "distinct (l2 @ [name])" using dist notin by simp
  have 2: "set (l2 @ [name]) = dom (r2(name \<mapsto> feature))" using dom by auto
  have 3: "mset t2 = mset (l2 @ [name]) + P" using tr by simp
  have 4: "getFeature E c n = Inr g \<and> (\<forall>d\<in>set (Dependencies (Meta g)). earlier (l2 @ [name]) d n)"
    if "(r2(name \<mapsto> feature)) n = Some g" for n g
  proof (cases "n = name")
    case True
    with that have "g = feature" by simp
    with True f deps dom notin show ?thesis
      by (auto intro!: earlier_append_new)
  next
    case False
    with that have "r2 n = Some g" by simp
    from old[OF this] show ?thesis by (auto intro: earlier_append_old)
  qed
  from 1 2 3 4 show ?thesis unfolding resolved_inv_def by simp
qed

lemma resolve_inv:
  "(\<forall>P l' r' t'. resolve E c k name st = Some (Inr (l', r', t')) \<longrightarrow>
      resolved_inv E c P st \<longrightarrow> resolved_inv E c P (l', r', t'))"
  "(\<forall>P l' r' t'. resolve_deps E c k ds st = Some (Inr (l', r', t')) \<longrightarrow>
      resolved_inv E c P st \<longrightarrow> resolved_inv E c P (l', r', t'))"
proof (induction E c k name st and E c k ds st rule: resolve_resolve_deps.induct)
  case (1 E c name st)
  then show ?case by simp
next
  case (2 E c k name lst result fetched)
  show ?case
  proof (intro allI impI)
    fix P l' r' t'
    assume run: "resolve E c (Suc k) name (lst, result, fetched) = Some (Inr (l', r', t'))"
      and inv: "resolved_inv E c P (lst, result, fetched)"
    show "resolved_inv E c P (l', r', t')"
    proof (cases "result name \<noteq> None")
      case True
      with run inv show ?thesis by auto
    next
      case False
      from run False obtain feature l2 r2 t2 where
        f: "getFeature E c name = Inr feature" and
        d: "resolve_deps E c k (Dependencies (Meta feature)) (lst, result, fetched @ [name])
              = Some (Inr (l2, r2, t2))" and
        out: "l' = l2 @ [name]" "r' = r2(name \<mapsto> feature)" "t' = t2"
        by (auto split: sum.splits option.splits)
      from 2[OF False f] d resolved_inv_fetch[OF inv, of name]
      have inv2: "resolved_inv E c (P + {#name#}) (l2, r2, t2)" by blast
      from False have "result name = None" by simp
      from resolve_deps_not_self[OF f this d] have new: "r2 name = None" .
      from resolve_grows(2)[of E c k "Dependencies (Meta feature)" "(lst, result, fetched @ [name])"] d
      have deps: "set (Dependencies (Meta feature)) \<subseteq> dom r2" by blast
      from resolved_inv_append[OF inv2 f new deps] out show ?thesis by simp
    qed
  qed
next
  case (3 E c k st)
  then show ?case by auto
next
  case (4 E c k depName rest st)
  show ?case
  proof (intro allI impI)
    fix P l' r' t'
    assume run: "resolve_deps E c k (depName # rest) st = Some (Inr (l', r', t'))"
      and inv: "resolved_inv E c P st"
    from run obtain l1 r1 t1 where
      a: "resolve E c k depName st = Some (Inr (l1, r1, t1))" and
      b: "resolve_deps E c k rest (l1, r1, t1) = Some (Inr (l', r', t'))"
      by (auto split: sum.splits option.splits)
    from 4(1) a inv have "resolved_inv E c P (l1, r1, t1)" by blast
    with 4(2)[OF a refl] b show "resolved_inv E c P (l', r', t')" by blast
  qed
qed

lemma Resolve_inv:
  assumes "Resolve E storage k names = Some (Inr (lst, result, fetched))"
  shows "\<exists>c. latestCommit storage = Inr c \<and> resolved_inv E c {#} (lst, result, fetched)"
proof -
  from assms obtain c where c: "latestCommit storage = Inr c"
    and run: "resolve_deps E c k names ([], Map.empty, []) = Some (Inr (lst, result, fetched))"
    by (auto simp: Resolve_def Resolve_names_eq split: sum.splits)
  have "resolved_inv E c {#} ([], Map.empty, [])" by (simp add: resolved_inv_def)
  with resolve_inv(2)[of E c k names "([], Map.empty, [])"] run
  have "resolved_inv E c {#} (lst, result, fetched)" by blast
  with c show ?thesis by blast
qed

lemma earlier_trans: "earlier lst d m \<Longrightarrow> earlier lst m n \<Longrightarrow> earlier lst d n"
  unfolding earlier_def
  by (induction lst) (auto split: if_splits)

lemma earlier_index:
  assumes "earlier lst d n"
  shows "\<exists>i j. i < j \<and> j < length lst \<and> lst ! i = d \<and> lst ! j = n"
proof -
  let ?P = "\<lambda>x. x \<noteq> n"
  let ?m = "length (takeWhile ?P lst)"
  from assms have d: "d \<in> set (takeWhile ?P lst)" and n: "n \<in> set lst"
    by (auto simp: earlier_def)
  from d obtain i where i: "i < ?m" "takeWhile ?P lst ! i = d"
    by (auto simp: in_set_conv_nth)
  from n have m: "?m < length lst"
    by (induction lst) auto
  then have "\<not> ?P (lst ! ?m)" by (rule nth_length_takeWhile)
  then have "lst ! ?m = n" by simp
  moreover from i have "lst ! i = d" by (simp add: takeWhile_nth)
  ultimately show ?thesis using i(1) m by blast
qed


lemma example_getFeature:
  "getFeature example_env example_commit ''A'' = Inr example_A"
  "getFeature example_env example_commit ''B'' = Inr example_B"
  "getFeature example_env example_commit ''C'' = Inr example_C"
  "getFeature example_env example_commit ''FooBoo'' = Inl ErrFileNotFound"
  by (simp_all add: getFeature_def getMeta_def getTestSpec_def example_env_def example_commit_def
      example_file_def example_A_def example_B_def example_C_def Feature_of_Meta_def
      featureDir_def featureFile_def featureSnippet_def testSnippet_def)

lemma example_latestCommit: "latestCommit example_storage = Inr example_commit"
  by (simp add: latestCommit_def example_storage_def)

lemma example_Resolve_A:
  "Resolve example_env example_storage 2 [''A''] =
     Some (Inr ([''B'', ''A''], [''B'' \<mapsto> example_B, ''A'' \<mapsto> example_A], [''A'', ''B'']))"
  by (simp add: Resolve_def example_latestCommit example_getFeature numeral_2_eq_2
      example_A_def example_B_def)

lemma example_Resolve_A_C:
  "Resolve example_env example_storage 2 [''A'', ''C''] =
     Some (Inr ([''B'', ''A'', ''C''],
                [''B'' \<mapsto> example_B, ''A'' \<mapsto> example_A, ''C'' \<mapsto> example_C],
                [''A'', ''B'', ''C'']))"
  by (simp add: Resolve_def example_latestCommit example_getFeature numeral_2_eq_2
      example_A_def example_B_def example_C_def)

text \<open>What the store says about dependencies, and what a run reaches.\<close>

lemma earlier_member: "earlier lst d n \<Longrightarrow> d \<in> set lst \<and> n \<in> set lst"
  by (auto simp: earlier_def dest: set_takeWhileD)

lemma resolved_inv_store:
  assumes "resolved_inv E c P (lst, result, fetched)" and "n \<in> set lst" and "store_dependency E c d n"
  shows "earlier lst d n"
proof -
  from assms(1,2) obtain f where f: "result n = Some f"
    by (auto simp: resolved_inv_def)
  with assms(1) have "getFeature E c n = Inr f" "\<forall>x\<in>set (Dependencies (Meta f)). earlier lst x n"
    by (auto simp: resolved_inv_def)
  with assms(3) show ?thesis by (simp add: store_dependency_def)
qed

lemma resolved_inv_store_trans:
  assumes inv: "resolved_inv E c P (lst, result, fetched)"
    and dep: "(store_dependency E c)\<^sup>+\<^sup>+ d n"
  shows "n \<in> set lst \<longrightarrow> earlier lst d n"
  using dep
proof (induction rule: tranclp_induct)
  case (base y)
  then show ?case using resolved_inv_store[OF inv] by blast
next
  case (step y z)
  show ?case
  proof
    assume z: "z \<in> set lst"
    from resolved_inv_store[OF inv z step.hyps(2)] have yz: "earlier lst y z" .
    then have "y \<in> set lst" by (simp add: earlier_member)
    with step.IH have "earlier lst d y" by simp
    from this yz show "earlier lst d z" by (rule earlier_trans)
  qed
qed

text \<open>A run adds only names from which the store's dependencies lead to the request.\<close>

lemma resolve_reach:
  "(\<forall>l' r' t'. resolve E c k name st = Some (Inr (l', r', t')) \<longrightarrow>
      set l' \<subseteq> set (fst st) \<union> {x. (store_dependency E c)\<^sup>*\<^sup>* x name})"
  "(\<forall>l' r' t'. resolve_deps E c k ds st = Some (Inr (l', r', t')) \<longrightarrow>
      set l' \<subseteq> set (fst st) \<union> {x. \<exists>d\<in>set ds. (store_dependency E c)\<^sup>*\<^sup>* x d})"
proof (induction E c k name st and E c k ds st rule: resolve_resolve_deps.induct)
  case (1 E c name st)
  then show ?case by simp
next
  case (2 E c k name lst result fetched)
  show ?case
  proof (intro allI impI)
    fix l' r' t'
    assume run: "resolve E c (Suc k) name (lst, result, fetched) = Some (Inr (l', r', t'))"
    show "set l' \<subseteq> set (fst (lst, result, fetched)) \<union> {x. (store_dependency E c)\<^sup>*\<^sup>* x name}"
    proof (cases "result name \<noteq> None")
      case True
      with run show ?thesis by auto
    next
      case False
      from run False obtain feature l2 r2 t2 where
        f: "getFeature E c name = Inr feature" and
        d: "resolve_deps E c k (Dependencies (Meta feature)) (lst, result, fetched @ [name])
              = Some (Inr (l2, r2, t2))" and
        l': "l' = l2 @ [name]"
        by (auto split: sum.splits option.splits)
      from 2[OF False f] d
      have l2: "set l2 \<subseteq> set lst \<union>
          {x. \<exists>d\<in>set (Dependencies (Meta feature)). (store_dependency E c)\<^sup>*\<^sup>* x d}"
        by fastforce
      have "(store_dependency E c)\<^sup>*\<^sup>* x name"
        if "d \<in> set (Dependencies (Meta feature))" "(store_dependency E c)\<^sup>*\<^sup>* x d" for x d
      proof -
        from that(1) f have "store_dependency E c d name" by (simp add: store_dependency_def)
        with that(2) show ?thesis by (rule rtranclp.rtrancl_into_rtrancl)
      qed
      with l2 l' show ?thesis by auto
    qed
  qed
next
  case (3 E c k st)
  then show ?case by auto
next
  case (4 E c k depName rest st)
  show ?case
  proof (intro allI impI)
    fix l' r' t'
    assume run: "resolve_deps E c k (depName # rest) st = Some (Inr (l', r', t'))"
    then obtain l1 r1 t1 where
      a: "resolve E c k depName st = Some (Inr (l1, r1, t1))" and
      b: "resolve_deps E c k rest (l1, r1, t1) = Some (Inr (l', r', t'))"
      by (auto split: sum.splits option.splits)
    from 4(1) a have 1: "set l1 \<subseteq> set (fst st) \<union> {x. (store_dependency E c)\<^sup>*\<^sup>* x depName}"
      by blast
    from 4(2)[OF a refl] b
    have 2: "set l' \<subseteq> set l1 \<union> {x. \<exists>d\<in>set rest. (store_dependency E c)\<^sup>*\<^sup>* x d}"
      by fastforce
    from 1 2 show "set l' \<subseteq> set (fst st) \<union>
        {x. \<exists>d\<in>set (depName # rest). (store_dependency E c)\<^sup>*\<^sup>* x d}"
      by auto
  qed
qed

lemma Resolve_run:
  assumes "Resolve E storage k names = Some (Inr (lst, result, fetched))"
    and "latestCommit storage = Inr c"
  shows "resolve_deps E c k names ([], Map.empty, []) = Some (Inr (lst, result, fetched))"
    and "resolved_inv E c {#} (lst, result, fetched)"
proof -
  from assms show run: "resolve_deps E c k names ([], Map.empty, []) = Some (Inr (lst, result, fetched))"
    by (simp add: Resolve_def Resolve_names_eq)
  have "resolved_inv E c {#} ([], Map.empty, [])" by (simp add: resolved_inv_def)
  with resolve_inv(2)[of E c k names "([], Map.empty, [])"] run
  show "resolved_inv E c {#} (lst, result, fetched)" by blast
qed

lemma distinct_count_list: "distinct xs \<Longrightarrow> x \<in> set xs \<Longrightarrow> count_list xs x = 1"
  by (induction xs) (auto simp: count_list_0_iff)

lemma example_store_dependency:
  "store_dependency example_env example_commit ''B'' ''A''"
  by (simp add: store_dependency_def example_getFeature example_A_def)

text \<open>
  Claim C1. When a resolution call succeeds on the commit \<open>c\<close> of the store: every
  entry of the returned map is the feature that the store holds under that name, and
  the map has an entry exactly for the names of the returned sequence; for every
  feature \<open>n\<close> of the sequence, every dependency \<open>d\<close> of \<open>n\<close> in the store, direct or
  through other features, stands strictly before \<open>n\<close> in the sequence, at a smaller
  index; and the same holds for the dependencies as the returned features list them.
  A name is appended only after all its dependencies.
\<close>

theorem resolve_dependencies_earlier:
  assumes "Resolve E storage k names = Some (Inr (lst, result, fetched))"
    and "latestCommit storage = Inr c"
  shows "(\<forall>n f. result n = Some f \<longrightarrow> getFeature E c n = Inr f) \<and>
         (\<forall>n. n \<in> set lst \<longleftrightarrow> result n \<noteq> None) \<and>
         (\<forall>d n. n \<in> set lst \<longrightarrow> (store_dependency E c)\<^sup>+\<^sup>+ d n \<longrightarrow>
            earlier lst d n \<and> (\<exists>i j. i < j \<and> j < length lst \<and> lst ! i = d \<and> lst ! j = n)) \<and>
         (\<forall>d n. (dependency_of result)\<^sup>+\<^sup>+ d n \<longrightarrow> earlier lst d n)"
proof -
  note inv = Resolve_run(2)[OF assms]
  have 1: "\<forall>n f. result n = Some f \<longrightarrow> getFeature E c n = Inr f"
    using inv by (simp add: resolved_inv_def)
  have dom: "set lst = dom result" using inv by (simp add: resolved_inv_def)
  then have 2: "\<forall>n. n \<in> set lst \<longleftrightarrow> result n \<noteq> None" by auto
  have 3: "earlier lst d n \<and> (\<exists>i j. i < j \<and> j < length lst \<and> lst ! i = d \<and> lst ! j = n)"
    if "n \<in> set lst" "(store_dependency E c)\<^sup>+\<^sup>+ d n" for d n
  proof -
    from resolved_inv_store_trans[OF inv that(2)] that(1) have "earlier lst d n" by simp
    with earlier_index[of lst d n] show ?thesis by blast
  qed
  have sub: "store_dependency E c x y \<and> y \<in> set lst" if "dependency_of result x y" for x y
    using that 1 dom by (auto simp: dependency_of_def store_dependency_def split: option.splits)
  have 4: "earlier lst d n" if "(dependency_of result)\<^sup>+\<^sup>+ d n" for d n
  proof -
    from that have "(store_dependency E c)\<^sup>+\<^sup>+ d n \<and> n \<in> set lst"
    proof (induction rule: tranclp_induct)
      case (base y)
      with sub show ?case by blast
    next
      case (step y z)
      with sub[OF step.hyps(2)] show ?case by (meson tranclp.trancl_into_trancl)
    qed
    with 3 show ?thesis by blast
  qed
  from 1 2 3 4 show ?thesis by blast
qed

theorem resolve_dependencies_earlier_witness:
  "Resolve example_env example_storage 2 [''A''] =
     Some (Inr ([''B'', ''A''], [''B'' \<mapsto> example_B, ''A'' \<mapsto> example_A], [''A'', ''B''])) \<and>
   latestCommit example_storage = Inr example_commit \<and>
   getFeature example_env example_commit ''A'' = Inr example_A \<and>
   getFeature example_env example_commit ''B'' = Inr example_B \<and>
   store_dependency example_env example_commit ''B'' ''A'' \<and>
   earlier [''B'', ''A''] ''B'' ''A''"
proof -
  note t = resolve_dependencies_earlier[OF example_Resolve_A example_latestCommit]
  from t have a: "getFeature example_env example_commit ''A'' = Inr example_A"
    and b: "getFeature example_env example_commit ''B'' = Inr example_B"
    by simp_all
  have "(store_dependency example_env example_commit)\<^sup>+\<^sup>+ ''B'' ''A''"
    by (rule tranclp.r_into_trancl) (rule example_store_dependency)
  with t have "earlier [''B'', ''A''] ''B'' ''A''" by simp
  with a b example_Resolve_A example_latestCommit example_store_dependency
  show ?thesis by simp
qed

text \<open>
  Claim C2. When a resolution call succeeds on the commit \<open>c\<close> of the store: the
  returned sequence has no duplicates and its names are exactly the keys of the
  returned map; its names are exactly the requested names and what the store's
  dependencies reach from them, so every requested name is in it; the names fetched
  from the store are these same names, without duplicates; and so every such name,
  also one reached from two requested names, occurs exactly once in the sequence,
  is fetched exactly once, and has in the map the one feature the store holds for it.
\<close>

theorem resolve_no_duplicates:
  assumes "Resolve E storage k names = Some (Inr (lst, result, fetched))"
    and "latestCommit storage = Inr c"
  shows "distinct lst \<and> set lst = dom result \<and> distinct fetched \<and> set fetched = dom result \<and>
         set names \<subseteq> set lst \<and>
         set lst = {x. \<exists>n\<in>set names. (store_dependency E c)\<^sup>*\<^sup>* x n} \<and>
         (\<forall>x\<in>set lst. count_list lst x = 1 \<and> count_list fetched x = 1 \<and>
            (\<exists>f. result x = Some f \<and> getFeature E c x = Inr f))"
proof -
  note run = Resolve_run(1)[OF assms] and inv = Resolve_run(2)[OF assms]
  from inv have d: "distinct lst" and s: "set lst = dom result" and m: "mset fetched = mset lst"
    and st: "\<forall>n f. result n = Some f \<longrightarrow> getFeature E c n = Inr f"
    by (simp_all add: resolved_inv_def)
  from m d have df: "distinct fetched" by (metis mset_eq_imp_distinct_iff)
  from m have sf: "set fetched = set lst" by (metis mset_eq_setD)
  from resolve_grows(2)[of E c k names "([], Map.empty, [])"] run s
  have names: "set names \<subseteq> set lst" by auto
  have up: "x \<in> set lst" if "(store_dependency E c)\<^sup>*\<^sup>* x n" "n \<in> set lst" for x n
    using that
  proof (induction rule: converse_rtranclp_induct)
    case base
    then show ?case by simp
  next
    case (step y z)
    then have "z \<in> set lst" by simp
    from resolved_inv_store[OF inv this step.hyps(1)] show ?case by (simp add: earlier_member)
  qed
  from resolve_reach(2)[of E c k names "([], Map.empty, [])"] run
  have "set lst \<subseteq> {x. \<exists>n\<in>set names. (store_dependency E c)\<^sup>*\<^sup>* x n}" by fastforce
  moreover have "{x. \<exists>n\<in>set names. (store_dependency E c)\<^sup>*\<^sup>* x n} \<subseteq> set lst"
    using up names by blast
  ultimately have reach: "set lst = {x. \<exists>n\<in>set names. (store_dependency E c)\<^sup>*\<^sup>* x n}" by blast
  have each: "\<forall>x\<in>set lst. count_list lst x = 1 \<and> count_list fetched x = 1 \<and>
            (\<exists>f. result x = Some f \<and> getFeature E c x = Inr f)"
    using d df sf s st by (auto simp: distinct_count_list)
  from d s df sf names reach each show ?thesis by simp
qed

theorem resolve_no_duplicates_witness:
  "Resolve example_env example_storage 2 [''A'', ''C''] =
     Some (Inr ([''B'', ''A'', ''C''],
                [''B'' \<mapsto> example_B, ''A'' \<mapsto> example_A, ''C'' \<mapsto> example_C],
                [''A'', ''B'', ''C''])) \<and>
   latestCommit example_storage = Inr example_commit \<and>
   distinct [''B'', ''A'', ''C''] \<and>
   count_list [''B'', ''A'', ''C''] ''B'' = 1 \<and>
   count_list [''A'', ''B'', ''C''] ''B'' = 1 \<and>
   getFeature example_env example_commit ''B'' = Inr example_B"
proof -
  note t = resolve_no_duplicates[OF example_Resolve_A_C example_latestCommit]
  from t have "\<forall>x\<in>set [''B'', ''A'', ''C'']. count_list [''B'', ''A'', ''C''] x = 1 \<and>
      count_list [''A'', ''B'', ''C''] x = 1 \<and>
      (\<exists>f. [''B'' \<mapsto> example_B, ''A'' \<mapsto> example_A, ''C'' \<mapsto> example_C] x = Some f \<and>
           getFeature example_env example_commit x = Inr f)"
    by blast
  then have "count_list [''B'', ''A'', ''C''] ''B'' = 1 \<and> count_list [''A'', ''B'', ''C''] ''B'' = 1 \<and>
      getFeature example_env example_commit ''B'' = Inr example_B"
    by simp
  moreover from t have "distinct [''B'', ''A'', ''C'']" by blast
  ultimately show ?thesis using example_Resolve_A_C example_latestCommit by simp
qed

text \<open>
  Claim C5. The claim asks for an error when no name is given. \<^verbatim>\<open>GitStorage.Resolve\<close>
  runs its loop zero times and returns an empty sequence and an empty map with no
  error, whatever the depth bound.
\<close>

theorem resolve_empty_input_succeeds:
  "Resolve example_env example_storage k [] = Some (Inr ([], Map.empty, []))"
  by (simp add: Resolve_def example_latestCommit)

text \<open>
  Claim C6. The claim asks for an error that names the missing feature. For a name with
  no \<^verbatim>\<open>meta.yml\<close> in the commit, \<^verbatim>\<open>resolve\<close> hands back the error of \<^verbatim>\<open>getFeature\<close> as it
  is, the sentinel \<^verbatim>\<open>git.ErrFileNotFound\<close>, which carries no name.
\<close>

theorem resolve_missing_feature_error:
  "Resolve example_env example_storage (Suc k) [''FooBoo''] = Some (Inl ErrFileNotFound)"
  by (simp add: Resolve_def example_latestCommit example_getFeature)

section \<open>Composition: the rewriting of copy instructions\<close>

text \<open>What \<^verbatim>\<open>fixCopyCmd\<close> does, by the number of tokens after the instruction.\<close>

lemma chain_not_Nil: "chain n \<noteq> []"
  by (cases n) simp

lemma args_Nil: "args n = [] \<longleftrightarrow> Next n = None"
  by (cases n) (auto simp: args_def chain_not_Nil split: option.splits)

lemma args_Next: "Next n = Some m \<Longrightarrow> args n = Value m # args m"
  by (cases n; cases m) (auto simp: args_def split: option.splits)

lemma fixCopyCmd_two:
  assumes "2 \<le> length (args n)"
  shows "fixCopyCmd n feature =
           Inr (''COPY '' @ Name (Meta feature) @ ''/'' @ hd (args n) @ '' '' @ hd (tl (args n)))"
proof -
  from assms obtain src where src: "Next n = Some src"
    by (cases "Next n") (auto simp: args_Nil[symmetric])
  with assms have "1 \<le> length (args src)" by (simp add: args_Next)
  then obtain dst where dst: "Next src = Some dst"
    by (cases "Next src") (auto simp: args_Nil[symmetric])
  from src dst show ?thesis
    by (simp add: fixCopyCmd_def args_Next)
qed

lemma fixCopyCmd_short:
  assumes "length (args n) < 2"
  shows "fixCopyCmd n feature = Inl ErrInvalidCopyCmdSyntax"
proof (cases "Next n")
  case None
  then show ?thesis by (simp add: fixCopyCmd_def)
next
  case (Some src)
  with assms have "args src = []" by (simp add: args_Next)
  then have "Next src = None" by (simp add: args_Nil)
  with Some show ?thesis by (simp add: fixCopyCmd_def)
qed

lemma AppendRaw_buf: "AppendRaw c chunk = (c\<lparr>buf := buf c @ chunk @ NL\<rparr>, None)"
  by (simp add: AppendRaw_def WriteString_def)

lemma AppendFeature_loop_ok:
  assumes "\<forall>n\<in>set ns. Value n = ''copy'' \<longrightarrow> 2 \<le> length (args n)"
  shows "AppendFeature_loop c feature ns =
           (c\<lparr>buf := buf c @ concat (map (\<lambda>n. rewritten (Name (Meta feature)) n @ NL) ns)\<rparr>, None)"
  using assms
proof (induction ns arbitrary: c)
  case Nil
  then show ?case by simp
next
  case (Cons n ns)
  then have ih: "\<And>c. AppendFeature_loop c feature ns =
      (c\<lparr>buf := buf c @ concat (map (\<lambda>n. rewritten (Name (Meta feature)) n @ NL) ns)\<rparr>, None)"
    by simp
  show ?case
  proof (cases "Value n = ''copy''")
    case True
    with Cons.prems have "2 \<le> length (args n)" by simp
    from fixCopyCmd_two[OF this, of feature] True show ?thesis
      by (simp add: ih AppendRaw_buf rewritten_def)
  next
    case False
    then show ?thesis by (simp add: ih AppendRaw_buf rewritten_def)
  qed
qed

lemma AppendFeature_loop_append:
  assumes "\<forall>n\<in>set pre. Value n = ''copy'' \<longrightarrow> 2 \<le> length (args n)"
  shows "AppendFeature_loop c feature (pre @ rest) =
           AppendFeature_loop
             (c\<lparr>buf := buf c @ concat (map (\<lambda>n. rewritten (Name (Meta feature)) n @ NL) pre)\<rparr>)
             feature rest"
  using assms
proof (induction pre arbitrary: c)
  case Nil
  then show ?case by simp
next
  case (Cons n pre)
  then have ih: "\<And>c. AppendFeature_loop c feature (pre @ rest) =
      AppendFeature_loop
        (c\<lparr>buf := buf c @ concat (map (\<lambda>n. rewritten (Name (Meta feature)) n @ NL) pre)\<rparr>)
        feature rest"
    by simp
  show ?case
  proof (cases "Value n = ''copy''")
    case True
    with Cons.prems have "2 \<le> length (args n)" by simp
    from fixCopyCmd_two[OF this, of feature] True show ?thesis
      by (simp add: ih AppendRaw_buf rewritten_def)
  next
    case False
    then show ?thesis by (simp add: ih AppendRaw_buf rewritten_def)
  qed
qed


lemma example_args:
  "args copy_foo_bar = [''foo'', ''bar'']"
  "args copy_foo = [''foo'']"
  "args copy_a_b_c = [''a'', ''b'', ''c'']"
  "args run_make = [''make'']"
  by (simp_all add: args_def copy_foo_bar_def copy_foo_def copy_a_b_c_def run_make_def token_def)

lemma example_Value:
  "Value copy_foo_bar = ''copy''"
  "Value copy_foo = ''copy''"
  "Value copy_a_b_c = ''copy''"
  "Value run_make = ''run''"
  "Original run_make = ''RUN make''"
  by (simp_all add: copy_foo_bar_def copy_foo_def copy_a_b_c_def run_make_def)

text \<open>
  Claim C3. In a feature named \<open>X\<close> whose copy instructions have exactly a source and a
  destination token, composition appends for each of them \<^verbatim>\<open>COPY X/source destination\<close>
  and for every other instruction its original text, one line each, and reports no
  error.
\<close>

theorem copy_source_prefixed:
  assumes "Parse (Snippet feature) = Inr ast"
    and "\<forall>n\<in>set (Children ast). Value n = ''copy'' \<longrightarrow> length (args n) = 2"
  shows "AppendFeature Parse c feature =
           (c\<lparr>buf := buf c @
                concat (map (\<lambda>n. rewritten (Name (Meta feature)) n @ NL) (Children ast))\<rparr>, None)"
proof -
  from assms(2) have "\<forall>n\<in>set (Children ast). Value n = ''copy'' \<longrightarrow> 2 \<le> length (args n)"
    by simp
  from AppendFeature_loop_ok[OF this] assms(1) show ?thesis
    by (simp add: AppendFeature_def)
qed

theorem copy_source_prefixed_witness:
  "example_Parse (Snippet (example_feature ''X'' (''COPY foo bar'' @ NL @ ''RUN make''))) =
     Inr (Node [] None [copy_foo_bar, run_make] []) \<and>
   Value copy_foo_bar = ''copy'' \<and> length (args copy_foo_bar) = 2 \<and> Value run_make = ''run'' \<and>
   AppendFeature example_Parse NewDockerfileWriter
       (example_feature ''X'' (''COPY foo bar'' @ NL @ ''RUN make'')) =
     (\<lparr>buf = ''COPY X/foo bar'' @ NL @ ''RUN make'' @ NL\<rparr>, None)"
proof -
  let ?f = "example_feature ''X'' (''COPY foo bar'' @ NL @ ''RUN make'')"
  have p: "example_Parse (Snippet ?f) = Inr (Node [] None [copy_foo_bar, run_make] [])"
    by (simp add: example_Parse_def example_feature_def)
  have two: "\<forall>n\<in>set (Children (Node [] None [copy_foo_bar, run_make] [])).
      Value n = ''copy'' \<longrightarrow> length (args n) = 2"
    by (simp add: example_args example_Value)
  from copy_source_prefixed[where Parse = example_Parse and feature = ?f
      and c = NewDockerfileWriter, OF p two] p two
  show ?thesis
    by (simp add: rewritten_def example_args example_Value NewDockerfileWriter_def
        example_feature_def)
qed

text \<open>
  Claim C7, as the code has it. When a copy instruction of a feature has only one token
  after it, and the copy instructions before it are well formed, composition of the
  feature returns the fixed error \<^verbatim>\<open>ErrInvalidCopyCmdSyntax\<close>, the same for every
  feature; the lines of the instructions before the malformed one are in the writer's
  buffer by then.
\<close>

theorem malformed_copy_fixed_error:
  assumes "Parse (Snippet feature) = Inr ast"
    and "Children ast = pre @ n # post"
    and "\<forall>m\<in>set pre. Value m = ''copy'' \<longrightarrow> 2 \<le> length (args m)"
    and "Value n = ''copy''"
    and "args n = [tok]"
  shows "AppendFeature Parse c feature =
           (c\<lparr>buf := buf c @ concat (map (\<lambda>m. rewritten (Name (Meta feature)) m @ NL) pre)\<rparr>,
            Some ErrInvalidCopyCmdSyntax)"
proof -
  from assms(5) have "length (args n) < 2" by simp
  from fixCopyCmd_short[OF this, of feature] assms(4)
  have "AppendFeature_loop c' feature (n # post) = (c', Some ErrInvalidCopyCmdSyntax)" for c'
    by simp
  with AppendFeature_loop_append[OF assms(3), of c feature "n # post"] assms(1,2) show ?thesis
    by (simp add: AppendFeature_def)
qed

theorem malformed_copy_fixed_error_witness:
  "example_Parse (Snippet (example_feature ''X'' (''RUN make'' @ NL @ ''COPY foo''))) =
     Inr (Node [] None [run_make, copy_foo] []) \<and>
   Value run_make = ''run'' \<and>
   Value copy_foo = ''copy'' \<and> args copy_foo = [''foo''] \<and>
   AppendFeature example_Parse NewDockerfileWriter
       (example_feature ''X'' (''RUN make'' @ NL @ ''COPY foo'')) =
     (\<lparr>buf = ''RUN make'' @ NL\<rparr>, Some ErrInvalidCopyCmdSyntax)"
proof -
  let ?f = "example_feature ''X'' (''RUN make'' @ NL @ ''COPY foo'')"
  have p: "example_Parse (Snippet ?f) = Inr (Node [] None [run_make, copy_foo] [])"
    by (simp add: example_Parse_def example_feature_def)
  have ch: "Children (Node [] None [run_make, copy_foo] []) = [run_make] @ copy_foo # []"
    by simp
  have pre: "\<forall>m\<in>set [run_make]. Value m = ''copy'' \<longrightarrow> 2 \<le> length (args m)"
    by (simp add: example_Value)
  from malformed_copy_fixed_error[where Parse = example_Parse and feature = ?f
      and c = NewDockerfileWriter, OF p ch pre example_Value(2) example_args(2)] p pre
  show ?thesis
    by (simp add: rewritten_def example_args example_Value NewDockerfileWriter_def)
qed

text \<open>
  The error of a malformed copy instruction does not name the feature: for the feature
  \<open>python\<close> it is the text \<^verbatim>\<open>Invalid 'COPY' command syntax\<close>, in which \<open>python\<close> does not
  occur.
\<close>

theorem malformed_copy_error_unnamed:
  "snd (AppendFeature example_Parse NewDockerfileWriter
          (example_feature ''python'' (''RUN make'' @ NL @ ''COPY foo''))) =
     Some (Errorf ''Invalid 'COPY' command syntax'') \<and>
   \<not> mentions ''Invalid 'COPY' command syntax'' ''python''"
  by (simp add: AppendFeature_def example_Parse_def example_feature_def fixCopyCmd_def
      ErrInvalidCopyCmdSyntax_def run_make_def copy_foo_def token_def AppendRaw_def
      WriteString_def)

text \<open>
  Claim C10. A copy instruction with three or more tokens after it is composed from its
  first two tokens only: the line appended is \<^verbatim>\<open>COPY X/first second\<close>, the further
  tokens are dropped, and no error is reported.
\<close>

theorem copy_extra_tokens_dropped:
  assumes "Parse (Snippet feature) = Inr ast"
    and "Children ast = pre @ n # post"
    and "\<forall>m\<in>set (pre @ post). Value m = ''copy'' \<longrightarrow> 2 \<le> length (args m)"
    and "Value n = ''copy''"
    and "args n = src # dst # extra"
    and "extra \<noteq> []"
  shows "AppendFeature Parse c feature =
           (c\<lparr>buf := buf c @
                concat (map (\<lambda>m. rewritten (Name (Meta feature)) m @ NL) pre) @
                (''COPY '' @ Name (Meta feature) @ ''/'' @ src @ '' '' @ dst @ NL) @
                concat (map (\<lambda>m. rewritten (Name (Meta feature)) m @ NL) post)\<rparr>, None)"
proof -
  from assms(3,5) have all: "\<forall>m\<in>set (pre @ n # post). Value m = ''copy'' \<longrightarrow> 2 \<le> length (args m)"
    by auto
  have "rewritten (Name (Meta feature)) n = ''COPY '' @ Name (Meta feature) @ ''/'' @ src @ '' '' @ dst"
    using assms(4,5) by (simp add: rewritten_def)
  with AppendFeature_loop_ok[OF all, of c feature] assms(1,2) show ?thesis
    by (simp add: AppendFeature_def)
qed

theorem copy_extra_tokens_dropped_witness:
  "example_Parse (Snippet (example_feature ''X'' ''COPY a b c'')) =
     Inr (Node [] None [copy_a_b_c] []) \<and>
   Value copy_a_b_c = ''copy'' \<and> args copy_a_b_c = ''a'' # ''b'' # [''c''] \<and> [''c''] \<noteq> [] \<and>
   AppendFeature example_Parse NewDockerfileWriter (example_feature ''X'' ''COPY a b c'') =
     (\<lparr>buf = ''COPY X/a b'' @ NL\<rparr>, None)"
proof -
  let ?f = "example_feature ''X'' ''COPY a b c''"
  have p: "example_Parse (Snippet ?f) = Inr (Node [] None [copy_a_b_c] [])"
    by (simp add: example_Parse_def example_feature_def)
  have ch: "Children (Node [] None [copy_a_b_c] []) = [] @ copy_a_b_c # []"
    by simp
  have rest: "\<forall>m\<in>set ([] @ []). Value m = ''copy'' \<longrightarrow> 2 \<le> length (args m)"
    by simp
  have a: "args copy_a_b_c = ''a'' # ''b'' # [''c'']" by (simp add: example_args)
  have ne: "[''c''] \<noteq> ([] :: string list)" by simp
  from copy_extra_tokens_dropped[where Parse = example_Parse and feature = ?f
      and c = NewDockerfileWriter, OF p ch rest example_Value(3) a ne] p a example_Value(3)
  show ?thesis
    by (simp add: NewDockerfileWriter_def example_feature_def)
qed

section \<open>The composed document\<close>

text \<open>A feature with no copy instruction adds the text of its instructions, one per line.\<close>

lemma AppendFeature_no_copy:
  assumes "parses Parse feature" and "no_copy Parse feature"
  shows "AppendFeature Parse w feature = (w\<lparr>buf := buf w @ snippet_lines Parse feature\<rparr>, None)"
proof -
  from assms(1) obtain ast where ast: "Parse (Snippet feature) = Inr ast"
    by (auto simp: parses_def split: sum.splits)
  with assms(2) have nc: "\<forall>n\<in>set (Children ast). Value n \<noteq> ''copy''"
    by (simp add: no_copy_def instructions_def list_all_iff)
  have "AppendFeature_loop w feature ns = (w\<lparr>buf := buf w @ concat (map (\<lambda>n. Original n @ NL) ns)\<rparr>, None)"
    if "\<forall>n\<in>set ns. Value n \<noteq> ''copy''" for ns w
    using that by (induction ns arbitrary: w) (simp_all add: AppendRaw_buf)
  from this[OF nc] ast show ?thesis
    by (simp add: AppendFeature_def snippet_lines_def instructions_def)
qed

lemma Compose_loop_no_copy:
  assumes "\<forall>f\<in>set features. parses Parse f \<and> no_copy Parse f"
  shows "Compose_loop Parse w features =
           (w\<lparr>buf := buf w @
                concat (map (\<lambda>f. ''# '' @ Name (Meta f) @ NL @ snippet_lines Parse f) features)\<rparr>,
            None)"
  using assms
proof (induction features arbitrary: w)
  case Nil
  then show ?case by simp
next
  case (Cons f features)
  then have f: "parses Parse f" "no_copy Parse f" by simp_all
  from Cons have ih: "\<And>w. Compose_loop Parse w features =
           (w\<lparr>buf := buf w @
                concat (map (\<lambda>f. ''# '' @ Name (Meta f) @ NL @ snippet_lines Parse f) features)\<rparr>,
            None)" by simp
  show ?case
    by (simp add: AppendRaw_buf AppendFeature_no_copy[OF f] ih)
qed

text \<open>
  Claim C8. For every base image and every sequence of features whose snippets the
  parser accepts and finds no copy instruction in, the composition succeeds and the
  document is exactly: the header line \<^verbatim>\<open>FROM\<close> with the caller's base image, then for
  each feature in order the comment line with its name and the text of each of its
  instructions as it was written, one per line, then the line \<^verbatim>\<open>CMD /bin/bash\<close>. Where
  the instructions the parser finds are the whole snippet, this content is the snippet
  itself, closed by a newline.
\<close>

theorem compose_without_copy:
  assumes "\<forall>f\<in>set features. parses Parse f \<and> no_copy Parse f"
  shows "Compose Parse baseImage features =
           Inr (composed baseImage (map (\<lambda>f. (Name (Meta f), snippet_lines Parse f)) features)) \<and>
         ((\<forall>f\<in>set features. snippet_lines Parse f = Snippet f @ NL) \<longrightarrow>
          Compose Parse baseImage features =
            Inr (composed baseImage (map (\<lambda>f. (Name (Meta f), Snippet f @ NL)) features)))"
proof -
  have 1: "Compose Parse baseImage features =
           Inr (composed baseImage (map (\<lambda>f. (Name (Meta f), snippet_lines Parse f)) features))"
    by (simp add: Compose_def Compose_loop_no_copy[OF assms] AppendRaw_buf NewDockerfileWriter_def
        composed_def comp_def)
  have 2: "map (\<lambda>f. (Name (Meta f), snippet_lines Parse f)) features =
        map (\<lambda>f. (Name (Meta f), Snippet f @ NL)) features"
    if "\<forall>f\<in>set features. snippet_lines Parse f = Snippet f @ NL"
    using that by simp
  show ?thesis
  proof (intro conjI impI)
    show "Compose Parse baseImage features =
           Inr (composed baseImage (map (\<lambda>f. (Name (Meta f), snippet_lines Parse f)) features))"
      by (rule 1)
  next
    assume "\<forall>f\<in>set features. snippet_lines Parse f = Snippet f @ NL"
    from 2[OF this] 1 show "Compose Parse baseImage features =
            Inr (composed baseImage (map (\<lambda>f. (Name (Meta f), Snippet f @ NL)) features))"
      by (simp only:)
  qed
qed

lemma example_python:
  "parses example_Parse (example_feature ''python'' ''RUN make'')"
  "no_copy example_Parse (example_feature ''python'' ''RUN make'')"
  "snippet_lines example_Parse (example_feature ''python'' ''RUN make'') = ''RUN make'' @ NL"
  by (simp_all add: parses_def no_copy_def snippet_lines_def instructions_def example_Parse_def
      example_feature_def run_make_def)

theorem compose_without_copy_witness:
  "parses example_Parse (example_feature ''python'' ''RUN make'') \<and>
   no_copy example_Parse (example_feature ''python'' ''RUN make'') \<and>
   snippet_lines example_Parse (example_feature ''python'' ''RUN make'') = ''RUN make'' @ NL \<and>
   Compose example_Parse ''ubuntu'' [example_feature ''python'' ''RUN make''] =
     Inr (''FROM ubuntu'' @ NL @ ''# python'' @ NL @ ''RUN make'' @ NL @ ''CMD /bin/bash'' @ NL)"
proof -
  have "\<forall>f\<in>set [example_feature ''python'' ''RUN make''].
          parses example_Parse f \<and> no_copy example_Parse f"
    by (simp add: example_python)
  from compose_without_copy[OF this, of "''ubuntu''"] example_python
  show ?thesis by (simp add: composed_def example_feature_def)
qed

text \<open>
  The command-line tool of package \<^verbatim>\<open>main\<close> composes its document by itself, without the
  writer: the header is the fixed line \<^verbatim>\<open>FROM ubuntu:latest\<close> and every snippet is
  written as it is.
\<close>

lemma generateDockerfile_loop_eq:
  "generateDockerfile_loop b features = Inr (b @ concat (map feature_block features))"
  by (induction features arbitrary: b) (simp_all add: WriteString_def feature_block_def)

lemma generateDockerfile_document:
  "generateDockerfile p features =
     (None, p\<lparr>dockerfile := ''FROM ubuntu:latest'' @ NL @ concat (map feature_block features) @
                               ''CMD /bin/bash'' @ NL\<rparr>)"
  by (simp add: generateDockerfile_def generateDockerfile_loop_eq WriteString_def)

section \<open>The JSON codec: reading what was written\<close>










lemma unquote_invalid:
  "\<not> (of_char c :: nat) < 0x80 \<Longrightarrow> utf8_len (c # cs) = 0 \<Longrightarrow>
   unquote (c # cs) = emit [CHR 0xEF, CHR 0xBF, CHR 0xBD] (unquote cs)"
  by (auto simp: unquote.simps)




















section \<open>The test plan and its file\<close>










section \<open>The test run\<close>





















end
